theory Spec2Isabelle
  imports Main
begin

section \<open>ThreadSafeHashTable.h: the sequential behaviour of the table\<close>

text \<open>
  The header defines one class template, \<open>thread_safe_hash_table<K, V, hash_function>\<close>,
  with a private nested struct \<open>Bucket\<close>. This theory embeds what one thread observes:
  every member function is a function from the state before the call to the state after
  it. The two \<open>std::shared_mutex\<close> members guard nothing a single thread can see and are
  left out.

  Values of \<open>size_t\<close> are natural numbers: the only arithmetic the header performs on them
  is \<open>hash(key) % buckets_count\<close>, which cannot wrap.

  C++ leaves three things the header can do undefined; each is a \<open>fault\<close> here, so that a
  call either returns a state (\<open>Inr\<close>) or names the fault it ran into (\<open>Inl\<close>):
  \<^item> \<open>DivisionByZero\<close>: \<open>hash(key) % buckets_count\<close> with \<open>buckets_count == 0\<close>;
  \<^item> \<open>OutOfBounds\<close>: \<open>data[index]\<close> on the \<open>std::vector\<close> with \<open>index >= data.size()\<close>;
  \<^item> \<open>EmptyBucket\<close>: \<open>data.back()\<close> on an empty \<open>std::list\<close>.
\<close>

datatype fault = DivisionByZero | OutOfBounds | EmptyBucket

subsection \<open>Bucket\<close>

text \<open>
  \<open>using bucket_data = std::pair<K, V>\<close> and \<open>std::list<bucket_data> data\<close>: a bucket is
  the list of its entries in storage order.
\<close>

type_synonym ('k, 'v) bucket_data = "'k \<times> 'v"

type_synonym ('k, 'v) Bucket = "('k, 'v) bucket_data list"

text \<open>
  \<open>std::find_if(first, last, p)\<close>: the iterator to the first element that satisfies \<open>p\<close>, or
  \<open>last\<close>. An iterator into a list is the position it points at; \<open>end()\<close> is the length.
\<close>

fun find_if :: "('a \<Rightarrow> bool) \<Rightarrow> 'a list \<Rightarrow> nat" where
  "find_if p [] = 0"
| "find_if p (x # xs) = (if p x then 0 else Suc (find_if p xs))"

text \<open>\<open>std::list::erase(it)\<close>: the element at \<open>it\<close> is removed, the others keep their order.\<close>

definition list_erase :: "nat \<Rightarrow> 'a list \<Rightarrow> 'a list" where
  "list_erase it xs = take it xs @ drop (Suc it) xs"

text \<open>\<open>Bucket::insert\<close> (lines 23-26): \<open>data.push_back({key, value})\<close>.\<close>

definition Bucket_insert :: "'k \<Rightarrow> 'v \<Rightarrow> ('k, 'v) Bucket \<Rightarrow> ('k, 'v) Bucket" where
  "Bucket_insert key val b = b @ [(key, val)]"

text \<open>
  \<open>Bucket::emplace\<close> (lines 28-32):
  \<open>data.push_back({key, V(std::forward<V>(args)...)})\<close>. Every argument of the pack is cast
  to \<open>V&&\<close> and a \<open>V\<close> is constructed from the results. The parameter \<open>V\<close> is that whole
  expression as a function of the pack, for the packs with which the member is well-formed.
  The table calls the member with one argument, itself a \<open>V\<close> (line 89); the expression is
  then the move constructor of \<open>V\<close>.
\<close>

definition Bucket_emplace :: "('a \<Rightarrow> 'v) \<Rightarrow> 'k \<Rightarrow> 'a \<Rightarrow> ('k, 'v) Bucket \<Rightarrow> ('k, 'v) Bucket" where
  "Bucket_emplace V key args b = b @ [(key, V args)]"

text \<open>\<open>Bucket::erase\<close> (lines 34-44).\<close>

definition Bucket_erase :: "'k \<Rightarrow> ('k, 'v) Bucket \<Rightarrow> ('k, 'v) Bucket" where
  "Bucket_erase key b =
     (let it = find_if (\<lambda>d. fst d = key) b
      in if it \<noteq> length b then list_erase it b else b)"

text \<open>
  \<open>Bucket::get_value\<close> (lines 46-54) returns \<open>&it->second\<close> or \<open>nullptr\<close>. A pointer to the
  value of an entry is the position of that entry in the bucket; \<open>nullptr\<close> is \<open>None\<close>.
\<close>

definition Bucket_get_value :: "'k \<Rightarrow> ('k, 'v) Bucket \<Rightarrow> nat option" where
  "Bucket_get_value key b =
     (let it = find_if (\<lambda>d. fst d = key) b
      in if it \<noteq> length b then Some it else None)"

text \<open>\<open>Bucket::get_last_element\<close> (lines 56-60): \<open>data.back().second\<close>, by reference.\<close>

definition Bucket_get_last_element :: "('k, 'v) Bucket \<Rightarrow> fault + nat" where
  "Bucket_get_last_element b = (if b = [] then Inl EmptyBucket else Inr (length b - 1))"

subsection \<open>The table\<close>

text \<open>The data members \<open>size_t buckets_count\<close> and \<open>std::vector<Bucket> data\<close> (lines 68-71).\<close>

record ('k, 'v) thread_safe_hash_table =
  buckets_count :: nat
  data :: "('k, 'v) Bucket list"

text \<open>
  A \<open>V&\<close> that a member function returns refers to the value of one entry: the entry at
  position \<open>pos\<close> of the bucket in slot \<open>slot\<close>. Reading through a reference that points at
  no entry of the state is \<open>None\<close>.
\<close>

datatype value_ref = ValueRef (slot: nat) (pos: nat)

definition deref :: "('k, 'v) thread_safe_hash_table \<Rightarrow> value_ref \<Rightarrow> 'v option" where
  "deref t r =
     (if slot r < length (data t) \<and> pos r < length (data t ! slot r)
      then Some (snd (data t ! slot r ! pos r)) else None)"

text \<open>
  The constructor (line 74): \<open>buckets_count(10), data(buckets_count)\<close>. The members are
  initialised in declaration order, \<open>buckets_count\<close> first, so \<open>data\<close> gets ten empty
  buckets.
\<close>

definition thread_safe_hash_table_init :: "('k, 'v) thread_safe_hash_table" where
  "thread_safe_hash_table_init =
     (let n = 10 in \<lparr>buckets_count = n, data = replicate n []\<rparr>)"

text \<open>\<open>get_index_by_key\<close> (lines 63-66); the hash functor is the parameter \<open>hash\<close>.\<close>

definition get_index_by_key ::
  "('k \<Rightarrow> nat) \<Rightarrow> 'k \<Rightarrow> ('k, 'v) thread_safe_hash_table \<Rightarrow> fault + nat" where
  "get_index_by_key hash key t =
     (if buckets_count t = 0 then Inl DivisionByZero
      else Inr (hash key mod buckets_count t))"

text \<open>\<open>insert\<close> (lines 77-82).\<close>

definition insert_table ::
  "('k \<Rightarrow> nat) \<Rightarrow> 'k \<Rightarrow> 'v \<Rightarrow> ('k, 'v) thread_safe_hash_table
     \<Rightarrow> fault + ('k, 'v) thread_safe_hash_table" where
  "insert_table hash key val t =
     (case get_index_by_key hash key t of
        Inl e \<Rightarrow> Inl e
      | Inr index \<Rightarrow>
          if index < length (data t)
          then Inr (t\<lparr>data := (data t)[index := Bucket_insert key val (data t ! index)]\<rparr>)
          else Inl OutOfBounds)"

text \<open>
  \<open>emplace\<close> (lines 84-90) evaluates \<open>V(std::forward<V>(args)...)\<close> itself (line 89) and
  hands that one value to \<open>Bucket::emplace\<close>, which constructs the stored value from it with
  the move constructor of \<open>V\<close>: the identity on values.

  The parameter \<open>V\<close> is the expression of line 89 as a function of the pack. That expression
  is not \<open>V(args...)\<close>: it forwards every argument as a \<open>V\<close>, not as its own type. So
  \<^item> the member is ill-formed for a pack with an argument that does not convert to \<open>V\<close>, and
    for a pack whose casts \<open>V\<close> has no constructor for, which for most types is every pack
    of two or more arguments; such a call does not compile and is no input of this function;
  \<^item> an argument that is an lvalue of type \<open>V\<close> is moved from; the caller's object is not
    part of the state of the table and does not appear here;
  \<^item> the stored value is move-constructed from temporaries (the one of line 89, then the one
    of line 31, then the list node), not constructed in place.

  What is left are the packs the member accepts: the empty one, and one argument that
  converts to \<open>V\<close>; for them \<open>V args\<close> is the value the call stores.
\<close>

definition emplace ::
  "('a \<Rightarrow> 'v) \<Rightarrow> ('k \<Rightarrow> nat) \<Rightarrow> 'k \<Rightarrow> 'a \<Rightarrow> ('k, 'v) thread_safe_hash_table
     \<Rightarrow> fault + ('k, 'v) thread_safe_hash_table" where
  "emplace V hash key args t =
     (case get_index_by_key hash key t of
        Inl e \<Rightarrow> Inl e
      | Inr index \<Rightarrow>
          if index < length (data t)
          then Inr (t\<lparr>data :=
                 (data t)[index := Bucket_emplace (\<lambda>v. v) key (V args) (data t ! index)]\<rparr>)
          else Inl OutOfBounds)"

text \<open>\<open>erase\<close> (lines 92-97).\<close>

definition erase ::
  "('k \<Rightarrow> nat) \<Rightarrow> 'k \<Rightarrow> ('k, 'v) thread_safe_hash_table
     \<Rightarrow> fault + ('k, 'v) thread_safe_hash_table" where
  "erase hash key t =
     (case get_index_by_key hash key t of
        Inl e \<Rightarrow> Inl e
      | Inr index \<Rightarrow>
          if index < length (data t)
          then Inr (t\<lparr>data := (data t)[index := Bucket_erase key (data t ! index)]\<rparr>)
          else Inl OutOfBounds)"

text \<open>
  The lookup that opens both accessors (lines 100-103 and 113-116):
  \<open>index = get_index_by_key(key); value = data[index].get_value(key)\<close>. It returns the
  slot together with the pointer.
\<close>

definition lookup ::
  "('k \<Rightarrow> nat) \<Rightarrow> 'k \<Rightarrow> ('k, 'v) thread_safe_hash_table \<Rightarrow> fault + (nat \<times> nat option)" where
  "lookup hash key t =
     (case get_index_by_key hash key t of
        Inl e \<Rightarrow> Inl e
      | Inr index \<Rightarrow>
          if index < length (data t)
          then Inr (index, Bucket_get_value key (data t ! index))
          else Inl OutOfBounds)"

text \<open>
  \<open>operator[]\<close> (lines 99-110); \<open>dflt\<close> is the value-initialised \<open>V()\<close>. The result is the
  reference returned and the state after the call.
\<close>

definition operator_index ::
  "('k \<Rightarrow> nat) \<Rightarrow> 'v \<Rightarrow> 'k \<Rightarrow> ('k, 'v) thread_safe_hash_table
     \<Rightarrow> fault + (value_ref \<times> ('k, 'v) thread_safe_hash_table)" where
  "operator_index hash dflt key t =
     (case lookup hash key t of
        Inl e \<Rightarrow> Inl e
      | Inr (index, Some p) \<Rightarrow> Inr (ValueRef index p, t)
      | Inr (index, None) \<Rightarrow>
          (let t' = t\<lparr>data := (data t)[index := Bucket_insert key dflt (data t ! index)]\<rparr>
           in case Bucket_get_last_element (data t' ! index) of
                Inl e \<Rightarrow> Inl e
              | Inr p \<Rightarrow> Inr (ValueRef index p, t')))"

text \<open>
  \<open>at\<close> (lines 112-122) has no embedding. Line 116 reads
  \<open>data[index]->get_value(...)\<close>; \<open>data[index]\<close> is a \<open>Bucket&\<close>, and \<open>Bucket\<close> is neither a
  pointer nor a class with an \<open>operator->\<close>, so the member is ill-formed wherever it is
  instantiated and no call of it ever runs.
\<close>

text \<open>\<open>clear\<close> (lines 124-127): \<open>data.clear()\<close> on the vector of buckets.\<close>

definition clear :: "('k, 'v) thread_safe_hash_table \<Rightarrow> ('k, 'v) thread_safe_hash_table" where
  "clear t = t\<lparr>data := []\<rparr>"

text \<open>\<open>bucket_count\<close> (lines 129-131).\<close>

definition bucket_count :: "('k, 'v) thread_safe_hash_table \<Rightarrow> nat" where
  "bucket_count t = buckets_count t"

subsection \<open>Sequences of calls\<close>

text \<open>
  A single-threaded client is a list of calls on one table. A call that runs into a fault
  ends the run with that fault.
\<close>

datatype ('k, 'v, 'a) call =
  Insert 'k 'v | Emplace 'k 'a | Erase 'k | Subscript 'k | Clear

fun is_Clear :: "('k, 'v, 'a) call \<Rightarrow> bool" where
  "is_Clear Clear = True"
| "is_Clear _ = False"

fun do_call ::
  "('a \<Rightarrow> 'v) \<Rightarrow> ('k \<Rightarrow> nat) \<Rightarrow> 'v \<Rightarrow> ('k, 'v, 'a) call \<Rightarrow> ('k, 'v) thread_safe_hash_table
     \<Rightarrow> fault + ('k, 'v) thread_safe_hash_table" where
  "do_call V hash dflt (Insert key val) t = insert_table hash key val t"
| "do_call V hash dflt (Emplace key args) t = emplace V hash key args t"
| "do_call V hash dflt (Erase key) t = erase hash key t"
| "do_call V hash dflt (Subscript key) t =
     (case operator_index hash dflt key t of Inl e \<Rightarrow> Inl e | Inr (r, t') \<Rightarrow> Inr t')"
| "do_call V hash dflt Clear t = Inr (clear t)"

fun run ::
  "('a \<Rightarrow> 'v) \<Rightarrow> ('k \<Rightarrow> nat) \<Rightarrow> 'v \<Rightarrow> ('k, 'v, 'a) call list \<Rightarrow> ('k, 'v) thread_safe_hash_table
     \<Rightarrow> fault + ('k, 'v) thread_safe_hash_table" where
  "run V hash dflt [] t = Inr t"
| "run V hash dflt (c # cs) t =
     (case do_call V hash dflt c t of Inl e \<Rightarrow> Inl e | Inr t' \<Rightarrow> run V hash dflt cs t')"

subsection \<open>Predicates on states\<close>

text \<open>
  The invariant the constructor establishes: the vector has \<open>buckets_count\<close> slots, and
  there is at least one.
\<close>

definition slots_intact :: "('k, 'v) thread_safe_hash_table \<Rightarrow> bool" where
  "slots_intact t = (0 < buckets_count t \<and> length (data t) = buckets_count t)"

text \<open>A key is present in the table when some bucket holds an entry with that key.\<close>

definition present :: "'k \<Rightarrow> ('k, 'v) thread_safe_hash_table \<Rightarrow> bool" where
  "present key t = list_ex (list_ex (\<lambda>d. fst d = key)) (data t)"

section \<open>Facts about the embedding\<close>

subsection \<open>The linear scan\<close>

lemma find_if_le: "find_if p xs \<le> length xs"
  by (induction xs) simp_all

lemma find_if_end_iff: "find_if p xs = length xs \<longleftrightarrow> (\<forall>x\<in>set xs. \<not> p x)"
proof (induction xs)
  case Nil
  show ?case by simp
next
  case (Cons x xs)
  show ?case using Cons.IH by simp
qed

lemma find_if_hit: "find_if p xs \<noteq> length xs \<Longrightarrow> find_if p xs < length xs \<and> p (xs ! find_if p xs)"
  by (induction xs) (auto split: if_splits)

lemma find_if_before: "j < find_if p xs \<Longrightarrow> \<not> p (xs ! j)"
proof (induction xs arbitrary: j)
  case Nil
  then show ?case by simp
next
  case (Cons x xs)
  then show ?case by (cases j) (auto split: if_splits)
qed

lemma find_if_append:
  "find_if p (xs @ ys) = (if find_if p xs = length xs then length xs + find_if p ys else find_if p xs)"
  by (induction xs) simp_all

lemma find_if_first_match:
  assumes "\<forall>x\<in>set xs. \<not> p x" and "p y"
  shows "find_if p (xs @ y # ys) = length xs"
  using assms by (simp add: find_if_append find_if_end_iff)

subsection \<open>Bucket operations on a bucket without, and with, the key\<close>

lemma Bucket_get_value_absent:
  "\<forall>d\<in>set b. fst d \<noteq> key \<Longrightarrow> Bucket_get_value key b = None"
  by (simp add: Bucket_get_value_def find_if_end_iff)

lemma Bucket_erase_absent:
  "\<forall>d\<in>set b. fst d \<noteq> key \<Longrightarrow> Bucket_erase key b = b"
  by (simp add: Bucket_erase_def find_if_end_iff)

lemma Bucket_get_value_first:
  "\<forall>d\<in>set xs. fst d \<noteq> key \<Longrightarrow> Bucket_get_value key (xs @ (key, v) # ys) = Some (length xs)"
  by (simp add: Bucket_get_value_def find_if_first_match)

lemma Bucket_erase_first:
  "\<forall>d\<in>set xs. fst d \<noteq> key \<Longrightarrow> Bucket_erase key (xs @ (key, v) # ys) = xs @ ys"
  by (simp add: Bucket_erase_def find_if_first_match list_erase_def)

lemma Bucket_get_value_Some:
  "Bucket_get_value key b = Some p \<Longrightarrow> p < length b \<and> fst (b ! p) = key \<and> (\<forall>j<p. fst (b ! j) \<noteq> key)"
  unfolding Bucket_get_value_def Let_def
  using find_if_hit [of "\<lambda>d. fst d = key" b] find_if_before [of _ "\<lambda>d. fst d = key" b]
  by (auto split: if_splits)

subsection \<open>Table operations on a table whose slots are intact\<close>

lemma get_index_intact:
  "slots_intact t \<Longrightarrow> get_index_by_key hash key t = Inr (hash key mod buckets_count t)"
  by (simp add: slots_intact_def get_index_by_key_def)

lemma index_in_bounds:
  "slots_intact t \<Longrightarrow> hash key mod buckets_count t < length (data t)"
  by (simp add: slots_intact_def)

lemma absent_bucket:
  "\<not> present key t \<Longrightarrow> i < length (data t) \<Longrightarrow> \<forall>d\<in>set (data t ! i). fst d \<noteq> key"
  by (auto simp add: present_def list_ex_iff)

lemma insert_table_intact:
  "slots_intact t \<Longrightarrow>
   insert_table hash key val t =
     Inr (t\<lparr>data := (data t)[hash key mod buckets_count t :=
            data t ! (hash key mod buckets_count t) @ [(key, val)]]\<rparr>)"
  by (simp add: insert_table_def get_index_intact index_in_bounds Bucket_insert_def)

lemma emplace_intact:
  "slots_intact t \<Longrightarrow>
   emplace V hash key args t =
     Inr (t\<lparr>data := (data t)[hash key mod buckets_count t :=
            data t ! (hash key mod buckets_count t) @ [(key, V args)]]\<rparr>)"
  by (simp add: emplace_def get_index_intact index_in_bounds Bucket_emplace_def)

lemma erase_intact:
  "slots_intact t \<Longrightarrow>
   erase hash key t =
     Inr (t\<lparr>data := (data t)[hash key mod buckets_count t :=
            Bucket_erase key (data t ! (hash key mod buckets_count t))]\<rparr>)"
  by (simp add: erase_def get_index_intact index_in_bounds)

lemma lookup_intact:
  "slots_intact t \<Longrightarrow>
   lookup hash key t =
     Inr (hash key mod buckets_count t,
          Bucket_get_value key (data t ! (hash key mod buckets_count t)))"
  by (simp add: lookup_def get_index_intact index_in_bounds)

lemma operator_index_hit:
  "slots_intact t \<Longrightarrow>
   Bucket_get_value key (data t ! (hash key mod buckets_count t)) = Some p \<Longrightarrow>
   operator_index hash dflt key t = Inr (ValueRef (hash key mod buckets_count t) p, t)"
  by (simp add: operator_index_def lookup_intact)

lemma operator_index_miss:
  "slots_intact t \<Longrightarrow>
   Bucket_get_value key (data t ! (hash key mod buckets_count t)) = None \<Longrightarrow>
   operator_index hash dflt key t =
     Inr (ValueRef (hash key mod buckets_count t) (length (data t ! (hash key mod buckets_count t))),
          t\<lparr>data := (data t)[hash key mod buckets_count t :=
            data t ! (hash key mod buckets_count t) @ [(key, dflt)]]\<rparr>)"
  by (simp add: operator_index_def lookup_intact index_in_bounds Bucket_insert_def
      Bucket_get_last_element_def)

lemma slots_intact_update:
  "slots_intact t \<Longrightarrow> slots_intact (t\<lparr>data := (data t)[i := b]\<rparr>)"
  by (simp add: slots_intact_def)

lemma slots_intact_init: "slots_intact thread_safe_hash_table_init"
  by (simp add: slots_intact_def thread_safe_hash_table_init_def)

lemma absent_init: "\<not> present key thread_safe_hash_table_init"
  by (simp add: present_def thread_safe_hash_table_init_def list_ex_iff)

subsection \<open>Calls and runs\<close>

lemma do_call_buckets_count:
  "do_call V hash dflt c t = Inr t' \<Longrightarrow> buckets_count t' = buckets_count t"
  by (cases c)
    (auto simp add: insert_table_def emplace_def erase_def operator_index_def lookup_def
      clear_def Let_def split: sum.splits if_splits option.splits prod.splits)

lemma do_call_length:
  "\<not> is_Clear c \<Longrightarrow> do_call V hash dflt c t = Inr t' \<Longrightarrow> length (data t') = length (data t)"
  by (cases c)
    (auto simp add: insert_table_def emplace_def erase_def operator_index_def lookup_def
      Let_def split: sum.splits if_splits option.splits prod.splits)

lemma do_call_update:
  assumes "slots_intact t"
    and "c \<in> {Insert key val, Emplace key args, Erase key, Subscript key}"
  shows "\<exists>b. do_call V hash dflt c t =
    Inr (t\<lparr>data := (data t)[hash key mod buckets_count t := b]\<rparr>)"
proof -
  let ?i = "hash key mod buckets_count t"
  consider "c = Insert key val" | "c = Emplace key args" | "c = Erase key" | "c = Subscript key"
    using assms(2) by auto
  then show ?thesis
  proof cases
    case 1
    then show ?thesis using insert_table_intact [OF assms(1), of hash key val] by auto
  next
    case 2
    then show ?thesis using emplace_intact [OF assms(1), of V hash key args] by auto
  next
    case 3
    then show ?thesis using erase_intact [OF assms(1), of hash key] by auto
  next
    case 4
    show ?thesis
    proof (cases "Bucket_get_value key (data t ! ?i)")
      case None
      from operator_index_miss [where hash = hash and key = key and dflt = dflt, OF assms(1) None] 4 show ?thesis by auto
    next
      case (Some p)
      have "t\<lparr>data := (data t)[?i := data t ! ?i]\<rparr> = t" by simp
      with operator_index_hit [where hash = hash and key = key and dflt = dflt, OF assms(1) Some] 4 show ?thesis
        by (intro exI [of _ "data t ! ?i"]) simp
    qed
  qed
qed

lemma do_call_intact:
  assumes "slots_intact t" and "\<not> is_Clear c"
  shows "\<exists>t'. do_call V hash dflt c t = Inr t' \<and> slots_intact t'"
proof (cases c)
  case (Insert k v)
  with do_call_update [OF assms(1), of c k v _ V hash dflt] slots_intact_update [OF assms(1)]
  show ?thesis by auto
next
  case (Emplace k a)
  with do_call_update [OF assms(1), of c k _ a V hash dflt] slots_intact_update [OF assms(1)]
  show ?thesis by auto
next
  case (Erase k)
  with do_call_update [OF assms(1), of c k _ _ V hash dflt] slots_intact_update [OF assms(1)]
  show ?thesis by auto
next
  case (Subscript k)
  with do_call_update [OF assms(1), of c k _ _ V hash dflt] slots_intact_update [OF assms(1)]
  show ?thesis by auto
next
  case Clear
  with assms(2) show ?thesis by simp
qed

lemma run_intact:
  "slots_intact t \<Longrightarrow> \<not> list_ex is_Clear cs \<Longrightarrow>
   \<exists>t'. run V hash dflt cs t = Inr t' \<and> slots_intact t' \<and> buckets_count t' = buckets_count t"
proof (induction cs arbitrary: t)
  case Nil
  then show ?case by simp
next
  case (Cons c cs)
  from Cons.prems have nc: "\<not> is_Clear c" and ncs: "\<not> list_ex is_Clear cs" by simp_all
  from do_call_intact [OF Cons.prems(1) nc] obtain t1
    where step: "do_call V hash dflt c t = Inr t1" and ok: "slots_intact t1" by blast
  from do_call_buckets_count [OF step] have n: "buckets_count t1 = buckets_count t" .
  from Cons.IH [OF ok ncs] obtain t'
    where "run V hash dflt cs t1 = Inr t'" "slots_intact t'" "buckets_count t' = buckets_count t1"
    by blast
  with step n show ?case by simp
qed


subsection \<open>The freshly constructed table\<close>

lemma init_simps:
  "buckets_count thread_safe_hash_table_init = 10"
  "length (data thread_safe_hash_table_init) = 10"
  "data thread_safe_hash_table_init ! (n mod 10) = []"
  by (simp_all add: thread_safe_hash_table_init_def)

lemma init_explicit:
  "thread_safe_hash_table_init =
     \<lparr>buckets_count = 10, data = [[], [], [], [], [], [], [], [], [], []]\<rparr>"
  by (simp add: thread_safe_hash_table_init_def eval_nat_numeral)

lemma insert_init:
  "insert_table hash key val thread_safe_hash_table_init =
     Inr (thread_safe_hash_table_init
            \<lparr>data := (data thread_safe_hash_table_init)[hash key mod 10 := [(key, val)]]\<rparr>)"
  using insert_table_intact [OF slots_intact_init, of hash key val]
  by (simp add: init_simps)

section \<open>The claims\<close>

subsection \<open>C2: the default accessor on an absent key\<close>

text \<open>
  Claim C2. On a table whose slots are intact, \<open>operator[]\<close> with a key that no bucket
  holds appends the entry \<open>(key, V())\<close> to the bucket at \<open>hash(key) % buckets_count\<close> and
  returns a reference to the value of that new, last entry: the reference pointed at no entry
  before the call and reads \<open>V()\<close> after it. A second \<open>operator[]\<close> with the same key, on the
  state the first one left, returns the same reference and changes nothing.
\<close>

theorem default_accessor_round_trip:
  assumes "slots_intact t" and "\<not> present key t"
  shows "let i = hash key mod bucket_count t;
             r = ValueRef i (length (data t ! i));
             t' = t\<lparr>data := (data t)[i := data t ! i @ [(key, dflt)]]\<rparr>
         in operator_index hash dflt key t = Inr (r, t') \<and>
            deref t r = None \<and> deref t' r = Some dflt \<and>
            operator_index hash dflt key t' = Inr (r, t')"
proof -
  let ?i = "hash key mod buckets_count t"
  let ?r = "ValueRef ?i (length (data t ! ?i))"
  let ?t' = "t\<lparr>data := (data t)[?i := data t ! ?i @ [(key, dflt)]]\<rparr>"
  have bound: "?i < length (data t)" using assms(1) by (rule index_in_bounds)
  have miss: "\<forall>d\<in>set (data t ! ?i). fst d \<noteq> key"
    using assms(2) bound by (rule absent_bucket)
  have first: "operator_index hash dflt key t = Inr (?r, ?t')"
    using assms(1) Bucket_get_value_absent [OF miss]
    by (rule operator_index_miss [where hash = hash and key = key])
  have before: "deref t ?r = None" by (simp add: deref_def)
  have after: "deref ?t' ?r = Some dflt" using bound by (simp add: deref_def)
  have intact': "slots_intact ?t'" using assms(1) by (rule slots_intact_update)
  have hit: "Bucket_get_value key (data ?t' ! (hash key mod buckets_count ?t')) =
      Some (length (data t ! ?i))"
    using bound Bucket_get_value_first [OF miss, of dflt "[]"] by simp
  have "operator_index hash dflt key ?t' =
      Inr (ValueRef (hash key mod buckets_count ?t') (length (data t ! ?i)), ?t')"
    using intact' hit by (rule operator_index_hit [where hash = hash and key = key])
  then have second: "operator_index hash dflt key ?t' = Inr (?r, ?t')" by simp
  from first before after second show ?thesis
    by (simp add: Let_def bucket_count_def)
qed

text \<open>The round trip on the freshly constructed table, with the length of a string as its hash.\<close>

theorem default_accessor_round_trip_witness:
  "slots_intact (thread_safe_hash_table_init :: (string, int) thread_safe_hash_table) \<and>
   \<not> present ''a'' (thread_safe_hash_table_init :: (string, int) thread_safe_hash_table) \<and>
   operator_index length (0::int) ''a'' thread_safe_hash_table_init =
     Inr (ValueRef 1 0,
          \<lparr>buckets_count = 10, data = [[], [(''a'', 0)], [], [], [], [], [], [], [], []]\<rparr>) \<and>
   operator_index length (0::int) ''a''
       \<lparr>buckets_count = 10, data = [[], [(''a'', 0)], [], [], [], [], [], [], [], []]\<rparr> =
     Inr (ValueRef 1 0,
          \<lparr>buckets_count = 10, data = [[], [(''a'', 0)], [], [], [], [], [], [], [], []]\<rparr>)"
  using default_accessor_round_trip [OF slots_intact_init absent_init,
      where hash = length and key = "''a''" and dflt = "0::int"]
  unfolding init_explicit
  by (simp add: Let_def bucket_count_def slots_intact_def present_def)

subsection \<open>C3: clear discards the slots\<close>

text \<open>
  Claim C3. \<open>clear()\<close> on a table whose slots are intact leaves no slot at all, which is
  not the same as \<open>bucket_count\<close> emptied buckets; the number of slots then differs from
  \<open>bucket_count()\<close>, which still returns what it returned before; and every member
  function that indexes the vector (\<open>insert\<close>, \<open>emplace\<close>, \<open>erase\<close>, the lookup of the
  accessors, \<open>operator[]\<close>) indexes it out of bounds.
\<close>

theorem clear_discards_slots:
  assumes "slots_intact t"
  shows "data (clear t) = [] \<and>
         data (clear t) \<noteq> replicate (bucket_count t) [] \<and>
         length (data (clear t)) \<noteq> bucket_count (clear t) \<and>
         \<not> slots_intact (clear t) \<and>
         bucket_count (clear t) = bucket_count t \<and>
         insert_table hash key val (clear t) = Inl OutOfBounds \<and>
         emplace V hash key args (clear t) = Inl OutOfBounds \<and>
         erase hash key (clear t) = Inl OutOfBounds \<and>
         lookup hash key (clear t) = Inl OutOfBounds \<and>
         operator_index hash dflt key (clear t) = Inl OutOfBounds"
  using assms
  by (simp add: slots_intact_def clear_def bucket_count_def get_index_by_key_def
      insert_table_def emplace_def erase_def lookup_def operator_index_def)

text \<open>The freshly constructed table after \<open>clear()\<close>: no slots, \<open>bucket_count()\<close> still 10.\<close>

theorem clear_discards_slots_witness:
  "slots_intact (thread_safe_hash_table_init :: (string, int) thread_safe_hash_table) \<and>
   clear (thread_safe_hash_table_init :: (string, int) thread_safe_hash_table) =
     \<lparr>buckets_count = 10, data = []\<rparr> \<and>
   bucket_count (clear (thread_safe_hash_table_init :: (string, int) thread_safe_hash_table)) = 10 \<and>
   insert_table length ''a'' (1::int) (clear thread_safe_hash_table_init) = Inl OutOfBounds \<and>
   operator_index length (0::int) ''a'' (clear thread_safe_hash_table_init) = Inl OutOfBounds"
  using clear_discards_slots [OF slots_intact_init,
      where hash = length and key = "''a''" and val = "1::int" and dflt = "0::int"
        and V = "\<lambda>v::int. v" and args = "1::int"]
    slots_intact_init [where ?'a = string and ?'b = int]
  by (simp add: init_explicit clear_def bucket_count_def)

subsection \<open>C4: insert, look up, erase, look up\<close>

text \<open>
  Claim C4. Whatever the hash function: on the freshly constructed table, after
  \<open>insert("a", 1)\<close> the lookup of \<open>"a"\<close> finds an entry whose value is 1, and after
  \<open>erase("a")\<close> the lookup of \<open>"a"\<close> returns the null pointer. In general the lookup of a
  key that no bucket holds returns the null pointer on every table whose slots are intact,
  and a pointer the lookup does return addresses a stored entry with the key looked up: the
  lookup invents no value and returns none that is not stored.
\<close>

theorem crud_round_trip:
  "(let t0 = thread_safe_hash_table_init :: (string, int) thread_safe_hash_table;
        i = hash ''a'' mod bucket_count t0
    in \<exists>t1 t2.
         insert_table hash ''a'' 1 t0 = Inr t1 \<and>
         lookup hash ''a'' t1 = Inr (i, Some 0) \<and>
         deref t1 (ValueRef i 0) = Some 1 \<and>
         erase hash ''a'' t1 = Inr t2 \<and>
         lookup hash ''a'' t2 = Inr (i, None)) \<and>
   (slots_intact t \<and> \<not> present key t \<longrightarrow>
      lookup hash' key t = Inr (hash' key mod bucket_count t, None)) \<and>
   (lookup hash' k u = Inr (j, Some p) \<longrightarrow>
      j < length (data u) \<and> p < length (data u ! j) \<and>
      fst (data u ! j ! p) = k \<and>
      deref u (ValueRef j p) = Some (snd (data u ! j ! p)))"
proof -
  let ?t0 = "thread_safe_hash_table_init :: (string, int) thread_safe_hash_table"
  let ?i = "hash ''a'' mod 10"
  let ?t1 = "?t0\<lparr>data := (data ?t0)[?i := [(''a'', 1)]]\<rparr>"
  let ?t2 = "?t1\<lparr>data := (data ?t1)[?i := []]\<rparr>"
  have i: "?i < length (data ?t0)" by (simp add: init_simps)
  have intact1: "slots_intact ?t1" using slots_intact_init by (rule slots_intact_update)
  have intact2: "slots_intact ?t2" using intact1 by (rule slots_intact_update)
  have a: "insert_table hash ''a'' 1 ?t0 = Inr ?t1" by (rule insert_init)
  have b: "lookup hash ''a'' ?t1 = Inr (?i, Some 0)"
    using lookup_intact [OF intact1, of hash "''a''"] i
    by (simp add: init_simps Bucket_get_value_def)
  have c: "deref ?t1 (ValueRef ?i 0) = Some 1" using i by (simp add: deref_def)
  have d: "erase hash ''a'' ?t1 = Inr ?t2"
    using erase_intact [OF intact1, of hash "''a''"] i
    by (simp add: init_simps Bucket_erase_def list_erase_def)
  have e: "lookup hash ''a'' ?t2 = Inr (?i, None)"
    using lookup_intact [OF intact2, of hash "''a''"] i
    by (simp add: init_simps Bucket_get_value_def)
  have scenario: "let t0 = ?t0; i = hash ''a'' mod bucket_count t0
    in \<exists>t1 t2.
         insert_table hash ''a'' 1 t0 = Inr t1 \<and>
         lookup hash ''a'' t1 = Inr (i, Some 0) \<and>
         deref t1 (ValueRef i 0) = Some 1 \<and>
         erase hash ''a'' t1 = Inr t2 \<and>
         lookup hash ''a'' t2 = Inr (i, None)"
    unfolding Let_def bucket_count_def init_simps(1)
    using a b c d e by blast
  have miss: "slots_intact t \<and> \<not> present key t \<longrightarrow>
      lookup hash' key t = Inr (hash' key mod bucket_count t, None)"
  proof
    assume h: "slots_intact t \<and> \<not> present key t"
    then have "hash' key mod buckets_count t < length (data t)" by (simp add: index_in_bounds)
    with h have "\<forall>d\<in>set (data t ! (hash' key mod buckets_count t)). fst d \<noteq> key"
      using absent_bucket [of key t "hash' key mod buckets_count t"] by blast
    then have "Bucket_get_value key (data t ! (hash' key mod buckets_count t)) = None"
      by (rule Bucket_get_value_absent)
    with h lookup_intact [of t hash' key] show
      "lookup hash' key t = Inr (hash' key mod bucket_count t, None)"
      by (simp add: bucket_count_def)
  qed
  have found: "lookup hash' k u = Inr (j, Some p) \<longrightarrow>
      j < length (data u) \<and> p < length (data u ! j) \<and>
      fst (data u ! j ! p) = k \<and>
      deref u (ValueRef j p) = Some (snd (data u ! j ! p))"
  proof
    assume "lookup hash' k u = Inr (j, Some p)"
    then have j: "j < length (data u)" and g: "Bucket_get_value k (data u ! j) = Some p"
      by (auto simp add: lookup_def split: sum.splits if_splits)
    from Bucket_get_value_Some [OF g] j show
      "j < length (data u) \<and> p < length (data u ! j) \<and>
       fst (data u ! j ! p) = k \<and>
       deref u (ValueRef j p) = Some (snd (data u ! j ! p))"
      by (simp add: deref_def)
  qed
  from scenario miss found show ?thesis by blast
qed

text \<open>A miss on the freshly constructed table, and a hit on a table of two buckets.\<close>

theorem crud_round_trip_witness:
  "slots_intact (thread_safe_hash_table_init :: (string, int) thread_safe_hash_table) \<and>
   \<not> present ''b'' (thread_safe_hash_table_init :: (string, int) thread_safe_hash_table) \<and>
   lookup length ''b'' (thread_safe_hash_table_init :: (string, int) thread_safe_hash_table)
     = Inr (1, None) \<and>
   lookup length ''a'' \<lparr>buckets_count = 2, data = [[], [(''a'', 5::int)]]\<rparr> = Inr (1, Some 0) \<and>
   deref \<lparr>buckets_count = 2, data = [[], [(''a'', 5::int)]]\<rparr> (ValueRef 1 0) = Some 5"
proof -
  let ?u = "\<lparr>buckets_count = 2, data = [[], [(''a'', 5::int)]]\<rparr>"
  have found: "lookup length ''a'' ?u = Inr (1, Some 0)"
    by (simp add: lookup_def get_index_by_key_def Bucket_get_value_def)
  from crud_round_trip [where t = "thread_safe_hash_table_init" and key = "''b''"
      and hash' = length and u = ?u and k = "''a''" and j = 1 and p = 0 and hash = length]
    slots_intact_init [where ?'a = string and ?'b = int]
    absent_init [where ?'a = string and ?'b = int and key = "''b''"] found
  show ?thesis by (auto simp add: bucket_count_def init_simps)
qed

subsection \<open>C5: duplicate keys\<close>

text \<open>
  Claim C5. Whatever the hash function: on the freshly constructed table, after
  \<open>insert("a", 1)\<close> and \<open>insert("a", 2)\<close> the bucket of \<open>"a"\<close> holds both entries in that
  order and the lookup of \<open>"a"\<close> finds the first, with value 1; \<open>erase("a")\<close> then leaves
  the one entry \<open>("a", 2)\<close>, which the lookup now finds. In general \<open>insert\<close> appends its
  entry to the bucket of the key whether or not the key is already there, and in a bucket
  whose first entry with the key stands after \<open>xs\<close>, the lookup returns that position and
  \<open>erase\<close> removes exactly that entry.
\<close>

theorem duplicate_keys:
  "(let t0 = thread_safe_hash_table_init :: (string, int) thread_safe_hash_table;
        i = hash ''a'' mod bucket_count t0
    in \<exists>t1 t2 t3.
         insert_table hash ''a'' 1 t0 = Inr t1 \<and>
         insert_table hash ''a'' 2 t1 = Inr t2 \<and>
         data t2 ! i = [(''a'', 1), (''a'', 2)] \<and>
         lookup hash ''a'' t2 = Inr (i, Some 0) \<and>
         deref t2 (ValueRef i 0) = Some 1 \<and>
         erase hash ''a'' t2 = Inr t3 \<and>
         data t3 ! i = [(''a'', 2)] \<and>
         lookup hash ''a'' t3 = Inr (i, Some 0) \<and>
         deref t3 (ValueRef i 0) = Some 2) \<and>
   (slots_intact t \<longrightarrow>
      insert_table hash' key val t =
        Inr (t\<lparr>data := (data t)[hash' key mod bucket_count t :=
               data t ! (hash' key mod bucket_count t) @ [(key, val)]]\<rparr>)) \<and>
   ((\<forall>d\<in>set xs. fst d \<noteq> key) \<longrightarrow>
      Bucket_get_value key (xs @ (key, val) # ys) = Some (length xs) \<and>
      Bucket_erase key (xs @ (key, val) # ys) = xs @ ys)"
proof -
  let ?t0 = "thread_safe_hash_table_init :: (string, int) thread_safe_hash_table"
  let ?i = "hash ''a'' mod 10"
  let ?t1 = "?t0\<lparr>data := (data ?t0)[?i := [(''a'', 1)]]\<rparr>"
  let ?t2 = "?t0\<lparr>data := (data ?t0)[?i := [(''a'', 1), (''a'', 2)]]\<rparr>"
  let ?t3 = "?t0\<lparr>data := (data ?t0)[?i := [(''a'', 2)]]\<rparr>"
  have i: "?i < length (data ?t0)" by (simp add: init_simps)
  have intact1: "slots_intact ?t1" using slots_intact_init by (rule slots_intact_update)
  have intact2: "slots_intact ?t2" using slots_intact_init by (rule slots_intact_update)
  have intact3: "slots_intact ?t3" using slots_intact_init by (rule slots_intact_update)
  have a: "insert_table hash ''a'' 1 ?t0 = Inr ?t1" by (rule insert_init)
  have b: "insert_table hash ''a'' 2 ?t1 = Inr ?t2"
    using insert_table_intact [OF intact1, of hash "''a''" 2] i by (simp add: init_simps)
  have c: "data ?t2 ! ?i = [(''a'', 1), (''a'', 2)]" using i by simp
  have d: "lookup hash ''a'' ?t2 = Inr (?i, Some 0)"
    using lookup_intact [OF intact2, of hash "''a''"] i
    by (simp add: init_simps Bucket_get_value_def)
  have e: "deref ?t2 (ValueRef ?i 0) = Some 1" using i by (simp add: deref_def)
  have f: "erase hash ''a'' ?t2 = Inr ?t3"
    using erase_intact [OF intact2, of hash "''a''"] i
    by (simp add: init_simps Bucket_erase_def list_erase_def)
  have g: "data ?t3 ! ?i = [(''a'', 2)]" using i by simp
  have h: "lookup hash ''a'' ?t3 = Inr (?i, Some 0)"
    using lookup_intact [OF intact3, of hash "''a''"] i
    by (simp add: init_simps Bucket_get_value_def)
  have k: "deref ?t3 (ValueRef ?i 0) = Some 2" using i by (simp add: deref_def)
  have scenario: "let t0 = ?t0; i = hash ''a'' mod bucket_count t0
    in \<exists>t1 t2 t3.
         insert_table hash ''a'' 1 t0 = Inr t1 \<and>
         insert_table hash ''a'' 2 t1 = Inr t2 \<and>
         data t2 ! i = [(''a'', 1), (''a'', 2)] \<and>
         lookup hash ''a'' t2 = Inr (i, Some 0) \<and>
         deref t2 (ValueRef i 0) = Some 1 \<and>
         erase hash ''a'' t2 = Inr t3 \<and>
         data t3 ! i = [(''a'', 2)] \<and>
         lookup hash ''a'' t3 = Inr (i, Some 0) \<and>
         deref t3 (ValueRef i 0) = Some 2"
    unfolding Let_def bucket_count_def init_simps(1)
    using a b c d e f g h k by blast
  have append: "slots_intact t \<longrightarrow>
      insert_table hash' key val t =
        Inr (t\<lparr>data := (data t)[hash' key mod bucket_count t :=
               data t ! (hash' key mod bucket_count t) @ [(key, val)]]\<rparr>)"
    using insert_table_intact [of t hash' key val] by (simp add: bucket_count_def)
  have first: "(\<forall>d\<in>set xs. fst d \<noteq> key) \<longrightarrow>
      Bucket_get_value key (xs @ (key, val) # ys) = Some (length xs) \<and>
      Bucket_erase key (xs @ (key, val) # ys) = xs @ ys"
    using Bucket_get_value_first [of xs key val ys] Bucket_erase_first [of xs key val ys]
    by blast
  from scenario append first show ?thesis by blast
qed

text \<open>An insert of a key already present, and a bucket with the key twice.\<close>

theorem duplicate_keys_witness:
  "slots_intact \<lparr>buckets_count = 2, data = [[], [(''a'', 5::int)]]\<rparr> \<and>
   insert_table length ''a'' 6 \<lparr>buckets_count = 2, data = [[], [(''a'', 5::int)]]\<rparr> =
     Inr \<lparr>buckets_count = 2, data = [[], [(''a'', 5), (''a'', 6)]]\<rparr> \<and>
   list_all (\<lambda>d. fst d \<noteq> ''a'') [(''b'', 1::int)] \<and>
   Bucket_get_value ''a'' [(''b'', 1::int), (''a'', 6), (''a'', 3)] = Some 1 \<and>
   Bucket_erase ''a'' [(''b'', 1::int), (''a'', 6), (''a'', 3)] = [(''b'', 1), (''a'', 3)]"
proof -
  let ?t = "\<lparr>buckets_count = 2, data = [[], [(''a'', 5::int)]]\<rparr>"
  have intact: "slots_intact ?t" by (simp add: slots_intact_def)
  from duplicate_keys [where t = ?t and hash' = length and key = "''a''" and val = 6
      and xs = "[(''b'', 1)]" and ys = "[(''a'', 3)]" and hash = length] intact
  show ?thesis by (simp add: bucket_count_def)
qed

subsection \<open>C6: erasing an absent key\<close>

text \<open>
  Claim C6 as stated ranges over every table state. The state \<open>clear()\<close> leaves is one:
  no bucket holds the key \<open>"a"\<close> there, and \<open>erase("a")\<close> indexes the empty vector.
\<close>

theorem erase_after_clear_counterexample:
  "\<not> present ''a'' (clear (thread_safe_hash_table_init :: (string, int) thread_safe_hash_table)) \<and>
   erase length ''a'' (clear (thread_safe_hash_table_init :: (string, int) thread_safe_hash_table))
     = Inl OutOfBounds \<and>
   erase length ''a'' (clear (thread_safe_hash_table_init :: (string, int) thread_safe_hash_table))
     \<noteq> Inr (clear thread_safe_hash_table_init)"
  by (simp add: present_def clear_def erase_def get_index_by_key_def init_explicit)

text \<open>
  Claim C6, amended. On every table whose slots are intact (the vector still has its
  \<open>buckets_count\<close> slots, which holds from construction until \<open>clear()\<close>) and for every key
  that no bucket holds, \<open>erase(key)\<close> returns without a fault and leaves the state as it was.
\<close>

theorem erase_absent_noop:
  assumes "slots_intact t" and "\<not> present key t"
  shows "erase hash key t = Inr t"
proof -
  let ?i = "hash key mod buckets_count t"
  have "?i < length (data t)" using assms(1) by (rule index_in_bounds)
  with assms(2) have "\<forall>d\<in>set (data t ! ?i). fst d \<noteq> key" by (rule absent_bucket)
  then have "Bucket_erase key (data t ! ?i) = data t ! ?i" by (rule Bucket_erase_absent)
  with erase_intact [OF assms(1), of hash key] show ?thesis by simp
qed

text \<open>Erasing a key that a table of two buckets does not hold.\<close>

theorem erase_absent_noop_witness:
  "slots_intact \<lparr>buckets_count = 2, data = [[(''bb'', 1::int)], [(''a'', 2), (''c'', 3)]]\<rparr> \<and>
   \<not> present ''e'' \<lparr>buckets_count = 2, data = [[(''bb'', 1::int)], [(''a'', 2), (''c'', 3)]]\<rparr> \<and>
   erase length ''e'' \<lparr>buckets_count = 2, data = [[(''bb'', 1::int)], [(''a'', 2), (''c'', 3)]]\<rparr>
     = Inr \<lparr>buckets_count = 2, data = [[(''bb'', 1::int)], [(''a'', 2), (''c'', 3)]]\<rparr>"
proof -
  let ?t = "\<lparr>buckets_count = 2, data = [[(''bb'', 1::int)], [(''a'', 2), (''c'', 3)]]\<rparr>"
  have intact: "slots_intact ?t" by (simp add: slots_intact_def)
  have absent: "\<not> present ''e'' ?t" by (simp add: present_def)
  from intact absent erase_absent_noop [OF intact absent, of length] show ?thesis by simp
qed

subsection \<open>C7: routing by hash\<close>

text \<open>
  Claim C7. The constructor sets \<open>bucket_count()\<close> to 10 and no call changes it. On a table
  whose slots are intact, \<open>get_index_by_key\<close> returns \<open>hash(key) % bucket_count\<close>, and
  \<open>insert\<close>, \<open>emplace\<close>, \<open>erase\<close>, the lookup and \<open>operator[]\<close> each apply the bucket
  operation of the same name to the bucket in that slot and to no other. So two keys whose
  hashes are congruent modulo \<open>bucket_count\<close>, inserted one after the other, end as the last
  two entries of one bucket.
\<close>

theorem bucket_routing:
  fixes t :: "('k, 'v) thread_safe_hash_table"
  assumes "slots_intact t"
  shows "bucket_count (thread_safe_hash_table_init :: ('k, 'v) thread_safe_hash_table) = 10 \<and>
    (\<forall>c t'. do_call V hash dflt c t = Inr t' \<longrightarrow> bucket_count t' = bucket_count t) \<and>
    (let i = hash key mod bucket_count t in
       get_index_by_key hash key t = Inr i \<and>
       insert_table hash key val t =
         Inr (t\<lparr>data := (data t)[i := Bucket_insert key val (data t ! i)]\<rparr>) \<and>
       emplace V hash key args t =
         Inr (t\<lparr>data := (data t)[i := Bucket_emplace (\<lambda>v. v) key (V args) (data t ! i)]\<rparr>) \<and>
       erase hash key t =
         Inr (t\<lparr>data := (data t)[i := Bucket_erase key (data t ! i)]\<rparr>) \<and>
       lookup hash key t = Inr (i, Bucket_get_value key (data t ! i)) \<and>
       operator_index hash dflt key t =
         (case Bucket_get_value key (data t ! i) of
            Some p \<Rightarrow> Inr (ValueRef i p, t)
          | None \<Rightarrow>
              Inr (ValueRef i (length (data t ! i)),
                   t\<lparr>data := (data t)[i := Bucket_insert key dflt (data t ! i)]\<rparr>)) \<and>
       (hash key' mod bucket_count t = i \<longrightarrow>
          run V hash dflt [Insert key val, Insert key' val'] t =
            Inr (t\<lparr>data := (data t)[i := data t ! i @ [(key, val), (key', val')]]\<rparr>)))"
proof -
  let ?i = "hash key mod buckets_count t"
  let ?t1 = "t\<lparr>data := (data t)[?i := data t ! ?i @ [(key, val)]]\<rparr>"
  have i: "?i < length (data t)" using assms by (rule index_in_bounds)
  have count: "bucket_count (thread_safe_hash_table_init :: ('k, 'v) thread_safe_hash_table) = 10"
    by (simp add: bucket_count_def init_simps)
  have fixed: "\<forall>c t'. do_call V hash dflt c t = Inr t' \<longrightarrow> bucket_count t' = bucket_count t"
    using do_call_buckets_count [of V hash dflt _ t] by (simp add: bucket_count_def)
  have idx: "get_index_by_key hash key t = Inr ?i" using assms by (rule get_index_intact)
  have ins: "insert_table hash key val t =
      Inr (t\<lparr>data := (data t)[?i := Bucket_insert key val (data t ! ?i)]\<rparr>)"
    using insert_table_intact [OF assms, of hash key val] by (simp add: Bucket_insert_def)
  have emp: "emplace V hash key args t =
      Inr (t\<lparr>data := (data t)[?i := Bucket_emplace (\<lambda>v. v) key (V args) (data t ! ?i)]\<rparr>)"
    using emplace_intact [OF assms, of V hash key args] by (simp add: Bucket_emplace_def)
  have era: "erase hash key t =
      Inr (t\<lparr>data := (data t)[?i := Bucket_erase key (data t ! ?i)]\<rparr>)"
    using assms by (rule erase_intact)
  have loo: "lookup hash key t = Inr (?i, Bucket_get_value key (data t ! ?i))"
    using assms by (rule lookup_intact)
  have sub: "operator_index hash dflt key t =
      (case Bucket_get_value key (data t ! ?i) of
         Some p \<Rightarrow> Inr (ValueRef ?i p, t)
       | None \<Rightarrow>
           Inr (ValueRef ?i (length (data t ! ?i)),
                t\<lparr>data := (data t)[?i := Bucket_insert key dflt (data t ! ?i)]\<rparr>))"
  proof (cases "Bucket_get_value key (data t ! ?i)")
    case None
    with operator_index_miss [where hash = hash and key = key and dflt = dflt, OF assms None]
    show ?thesis by (simp add: Bucket_insert_def)
  next
    case (Some p)
    with operator_index_hit [where hash = hash and key = key and dflt = dflt, OF assms Some]
    show ?thesis by simp
  qed
  have same: "hash key' mod buckets_count t = ?i \<longrightarrow>
      run V hash dflt [Insert key val, Insert key' val'] t =
        Inr (t\<lparr>data := (data t)[?i := data t ! ?i @ [(key, val), (key', val')]]\<rparr>)"
  proof
    assume eq: "hash key' mod buckets_count t = ?i"
    have intact1: "slots_intact ?t1" using assms by (rule slots_intact_update)
    have "insert_table hash key' val' ?t1 =
        Inr (t\<lparr>data := (data t)[?i := data t ! ?i @ [(key, val), (key', val')]]\<rparr>)"
      using insert_table_intact [OF intact1, of hash key' val'] eq i by simp
    with insert_table_intact [OF assms, of hash key val]
    show "run V hash dflt [Insert key val, Insert key' val'] t =
        Inr (t\<lparr>data := (data t)[?i := data t ! ?i @ [(key, val), (key', val')]]\<rparr>)"
      by simp
  qed
  from count fixed idx ins emp era loo sub same show ?thesis
    unfolding Let_def bucket_count_def by (intro conjI)
qed

text \<open>Two strings of length 2 on the freshly constructed table: both land in slot 2.\<close>

theorem bucket_routing_witness:
  "slots_intact (thread_safe_hash_table_init :: (string, int) thread_safe_hash_table) \<and>
   length ''cd'' mod bucket_count (thread_safe_hash_table_init :: (string, int) thread_safe_hash_table)
     = length ''ab'' mod bucket_count (thread_safe_hash_table_init :: (string, int) thread_safe_hash_table) \<and>
   get_index_by_key length ''ab'' (thread_safe_hash_table_init :: (string, int) thread_safe_hash_table)
     = Inr 2 \<and>
   run (\<lambda>v::int. v) length (0::int) [Insert ''ab'' 1, Insert ''cd'' 2] thread_safe_hash_table_init =
     Inr \<lparr>buckets_count = 10,
          data = [[], [], [(''ab'', 1), (''cd'', 2)], [], [], [], [], [], [], []]\<rparr>"
  using bucket_routing [OF slots_intact_init, where hash = length and key = "''ab''"
      and key' = "''cd''" and val = "1::int" and val' = "2::int" and dflt = "0::int"
      and V = "\<lambda>v::int. v" and args = "0::int"]
    slots_intact_init [where ?'a = string and ?'b = int]
  unfolding init_explicit
  by (auto simp add: Let_def bucket_count_def)

subsection \<open>C9: the other buckets\<close>



subsection \<open>C10: indexing stays in bounds until clear\<close>

text \<open>
  Claim C10. With a non-zero \<open>buckets_count\<close>, \<open>get_index_by_key\<close> returns
  \<open>hash(key) % buckets_count\<close>, which is less than \<open>buckets_count\<close>. The constructor makes
  \<open>buckets_count\<close> 10 and creates 10 slots; no call other than \<open>clear()\<close> changes the number
  of slots or \<open>buckets_count\<close>. So every sequence of calls without \<open>clear()\<close> on the freshly
  constructed table runs to its end with no access out of bounds (and no other fault), and
  in the state it reaches every index is again within the 10 slots.
\<close>

theorem indexing_safety:
  "(0 < buckets_count t \<longrightarrow>
      get_index_by_key hash key t = Inr (hash key mod buckets_count t) \<and>
      hash key mod buckets_count t < buckets_count t) \<and>
   buckets_count (thread_safe_hash_table_init :: ('k, 'v) thread_safe_hash_table) = 10 \<and>
   length (data (thread_safe_hash_table_init :: ('k, 'v) thread_safe_hash_table)) = 10 \<and>
   (\<not> is_Clear c \<and> do_call V hash dflt c t = Inr t' \<longrightarrow>
      length (data t') = length (data t) \<and> buckets_count t' = buckets_count t) \<and>
   (\<not> list_ex is_Clear cs \<longrightarrow>
      (\<exists>u. run V hash dflt cs (thread_safe_hash_table_init :: ('k, 'v) thread_safe_hash_table) = Inr u \<and>
           buckets_count u = 10 \<and> length (data u) = 10 \<and>
           (\<forall>k. hash k mod buckets_count u < length (data u))))"
proof -
  have idx: "0 < buckets_count t \<longrightarrow>
      get_index_by_key hash key t = Inr (hash key mod buckets_count t) \<and>
      hash key mod buckets_count t < buckets_count t"
    by (simp add: get_index_by_key_def)
  have keep: "\<not> is_Clear c \<and> do_call V hash dflt c t = Inr t' \<longrightarrow>
      length (data t') = length (data t) \<and> buckets_count t' = buckets_count t"
    using do_call_length [of c V hash dflt t t'] do_call_buckets_count [of V hash dflt c t t']
    by blast
  have safe: "\<not> list_ex is_Clear cs \<longrightarrow>
      (\<exists>u. run V hash dflt cs (thread_safe_hash_table_init :: ('k, 'v) thread_safe_hash_table) = Inr u \<and>
           buckets_count u = 10 \<and> length (data u) = 10 \<and>
           (\<forall>k. hash k mod buckets_count u < length (data u)))"
  proof
    assume "\<not> list_ex is_Clear cs"
    with run_intact [OF slots_intact_init, of cs V hash dflt] obtain u
      where r: "run V hash dflt cs (thread_safe_hash_table_init :: ('k, 'v) thread_safe_hash_table) = Inr u"
        and ok: "slots_intact u"
        and n: "buckets_count u = buckets_count (thread_safe_hash_table_init :: ('k, 'v) thread_safe_hash_table)"
      by blast
    from ok n have "buckets_count u = 10 \<and> length (data u) = 10 \<and>
        (\<forall>k. hash k mod buckets_count u < length (data u))"
      by (simp add: slots_intact_def init_simps)
    with r show "\<exists>u. run V hash dflt cs (thread_safe_hash_table_init :: ('k, 'v) thread_safe_hash_table) = Inr u \<and>
           buckets_count u = 10 \<and> length (data u) = 10 \<and>
           (\<forall>k. hash k mod buckets_count u < length (data u))"
      by blast
  qed
  from idx keep safe show ?thesis by (simp add: init_simps)
qed

text \<open>A run of four calls on the freshly constructed table.\<close>

theorem indexing_safety_witness:
  "0 < buckets_count (thread_safe_hash_table_init :: (string, int) thread_safe_hash_table) \<and>
   get_index_by_key length ''a'' (thread_safe_hash_table_init :: (string, int) thread_safe_hash_table)
     = Inr 1 \<and>
   \<not> is_Clear (Erase ''a'' :: (string, int, int) call) \<and>
   do_call (\<lambda>v::int. v) length (0::int) (Erase ''a'') thread_safe_hash_table_init =
     Inr thread_safe_hash_table_init \<and>
   \<not> list_ex is_Clear [Insert ''a'' (1::int), Emplace ''bc'' (7::int), Subscript ''def'', Erase ''a''] \<and>
   run (\<lambda>v::int. v) length (0::int)
       [Insert ''a'' 1, Emplace ''bc'' 7, Subscript ''def'', Erase ''a''] thread_safe_hash_table_init =
     Inr \<lparr>buckets_count = 10,
          data = [[], [], [(''bc'', 7)], [(''def'', 0)], [], [], [], [], [], []]\<rparr>"
proof -
  let ?t0 = "thread_safe_hash_table_init :: (string, int) thread_safe_hash_table"
  have step: "do_call (\<lambda>v::int. v) length (0::int) (Erase ''a'') ?t0 = Inr ?t0"
    unfolding init_explicit by (simp add: erase_def get_index_by_key_def Bucket_erase_def)
  have runs: "run (\<lambda>v::int. v) length (0::int)
       [Insert ''a'' 1, Emplace ''bc'' 7, Subscript ''def'', Erase ''a''] ?t0 =
     Inr \<lparr>buckets_count = 10,
          data = [[], [], [(''bc'', 7)], [(''def'', 0)], [], [], [], [], [], []]\<rparr>"
    by code_simp
  from indexing_safety [where t = ?t0 and hash = length and key = "''a''"
      and c = "Erase ''a''" and V = "\<lambda>v::int. v" and dflt = "0::int" and t' = ?t0
      and cs = "[Insert ''a'' 1, Emplace ''bc'' 7, Subscript ''def'', Erase ''a'']"]
    step runs
  show ?thesis by (simp add: init_simps)
qed

end
